theory Spec2Isabelle
  imports Main
begin

section \<open>Creational patterns: the prototype tree and the provider factory\<close>

subsection \<open>Library primitives used by the program\<close>

text \<open>
  A call either returns or panics. A returned Go \<^verbatim>\<open>error\<close> is \<open>None\<close> for \<^verbatim>\<open>nil\<close> and
  \<open>Some e\<close> otherwise; a panic carries its message.
\<close>

datatype 'e outcome = Return "'e option" | Panic string

text \<open>
  Go's \<^verbatim>\<open>int\<close> is read as an \<open>int\<close>; \<open>MaxInt\<close> is its largest value, on a platform with
  64-bit integers.
\<close>

definition MaxInt :: int where
  "MaxInt = 2 ^ 63 - 1"

text \<open>
  \<^verbatim>\<open>strings.Repeat(s, count)\<close>: \<open>count\<close> copies of \<open>s\<close>; the library panics on a negative
  count. The library also panics, with "strings: Repeat output length overflow", when
  \<^verbatim>\<open>len(s) * count\<close> exceeds \<open>MaxInt\<close>. \<open>Repeat\<close> has no branch for that: it gives the
  result for every count that is not negative, and so agrees with the library exactly
  on the counts with \<^verbatim>\<open>len(s) * count\<close> up to \<open>MaxInt\<close>. Every statement below about a
  render from a level that the caller chooses carries that bound (\<open>fits\<close>), for each
  line of the render. A render from level 0 meets the bound in every tree that can
  be built: a line with an indent beyond it lies \<open>2 ^ 61\<close> folders deep. The only
  arithmetic of the program on an \<^verbatim>\<open>int\<close> is \<^verbatim>\<open>opts.Level += 1\<close>, which runs after the
  library has returned for the same level, so four times that level is at most \<open>MaxInt\<close>
  and the increment does not wrap around.
\<close>

definition Repeat :: "string \<Rightarrow> int \<Rightarrow> string + string" where
  "Repeat s count =
     (if count < 0 then Inl ''strings: negative Repeat count''
      else Inr (concat (replicate (nat count) s)))"

text \<open>
  An \<^verbatim>\<open>io.Writer\<close> is a sink with a state of its own: \<^verbatim>\<open>Write(p)\<close> takes the state and
  the bytes offered, and gives the new state and the error (the byte count that \<^verbatim>\<open>Write\<close>
  also returns is dropped by every caller in the program).
\<close>

type_synonym ('w, 'e) Writer = "'w \<Rightarrow> string \<Rightarrow> 'w \<times> 'e option"

text \<open>\<^verbatim>\<open>strings.Builder\<close>: \<^verbatim>\<open>Write\<close> appends to the buffer and always returns \<^verbatim>\<open>nil\<close>.\<close>

definition Builder_Write :: "(string, 'e) Writer" where
  "Builder_Write sb p = (sb @ p, None)"

subsection \<open>The prototype tree\<close>

text \<open>
  \<^verbatim>\<open>type File struct { Name string }\<close> and
  \<^verbatim>\<open>type Folder struct { File; Children []Node }\<close>; a \<^verbatim>\<open>Node\<close> is one of the two.
\<close>

datatype Node = File string | Folder string "Node list"

record WriteOpts =
  Level :: int

text \<open>
  \<^verbatim>\<open>fmt.Fprintf(w, "%s%s\n", strings.Repeat("    ", opts.Level), f.Name)\<close>: the arguments
  are evaluated first (so \<^verbatim>\<open>Repeat\<close> may panic before anything is written), then the
  formatted line goes to the writer in one \<^verbatim>\<open>Write\<close>, whose error is returned.
\<close>

definition File_WriteEntry ::
  "('w, 'e) Writer \<Rightarrow> string \<Rightarrow> 'w \<Rightarrow> WriteOpts \<Rightarrow> 'w \<times> 'e outcome" where
  "File_WriteEntry wr name w opts =
     (case Repeat ''    '' (Level opts) of
        Inl msg \<Rightarrow> (w, Panic msg)
      | Inr ind \<Rightarrow>
          (case wr w (ind @ name @ [CHR 0x0A]) of (w', err) \<Rightarrow> (w', Return err)))"

text \<open>
  \<^verbatim>\<open>WriteEntry\<close> through the \<^verbatim>\<open>Node\<close> interface. A folder writes its own line with
  \<^verbatim>\<open>f.File.WriteEntry\<close>, returns at once if that failed, and otherwise runs the loop over
  \<^verbatim>\<open>f.Children\<close> one level deeper; the loop returns the first error it meets.
\<close>

fun WriteEntry :: "('w, 'e) Writer \<Rightarrow> Node \<Rightarrow> 'w \<Rightarrow> WriteOpts \<Rightarrow> 'w \<times> 'e outcome"
  and WriteEntry_loop ::
    "('w, 'e) Writer \<Rightarrow> Node list \<Rightarrow> 'w \<Rightarrow> WriteOpts \<Rightarrow> 'w \<times> 'e outcome" where
  "WriteEntry wr (File name) w opts = File_WriteEntry wr name w opts"
| "WriteEntry wr (Folder name children) w opts =
     (case File_WriteEntry wr name w opts of
        (w', Return None) \<Rightarrow> WriteEntry_loop wr children w' (opts\<lparr>Level := Level opts + 1\<rparr>)
      | (w', Return (Some err)) \<Rightarrow> (w', Return (Some err))
      | (w', Panic msg) \<Rightarrow> (w', Panic msg))"
| "WriteEntry_loop wr [] w opts = (w, Return None)"
| "WriteEntry_loop wr (v # vs) w opts =
     (case WriteEntry wr v w opts of
        (w', Return None) \<Rightarrow> WriteEntry_loop wr vs w' opts
      | (w', Return (Some err)) \<Rightarrow> (w', Return (Some err))
      | (w', Panic msg) \<Rightarrow> (w', Panic msg))"

text \<open>
  \<^verbatim>\<open>Clone\<close>: a file gives a new file of the same name; a folder gives a new folder of the
  same name whose \<open>i\<close>-th child is the clone of the \<open>i\<close>-th child.
\<close>

fun Clone :: "Node \<Rightarrow> Node" where
  "Clone (File name) = File name"
| "Clone (Folder name children) = Folder name (map Clone children)"

text \<open>
  \<^verbatim>\<open>Folder.String\<close>: render into a fresh \<^verbatim>\<open>strings.Builder\<close> at level 0, drop the error,
  return the buffer. A panic of \<^verbatim>\<open>WriteEntry\<close> would pass through.
\<close>

definition Folder_String :: "string \<Rightarrow> Node list \<Rightarrow> string + string" where
  "Folder_String name children =
     (case WriteEntry (Builder_Write :: (string, unit) Writer) (Folder name children) []
             \<lparr>Level = 0\<rparr> of
        (sb, Return err) \<Rightarrow> Inr sb
      | (sb, Panic msg) \<Rightarrow> Inl msg)"

subsection \<open>The tree as objects in a store\<close>

text \<open>
  \<^verbatim>\<open>Clone\<close> allocates: \<^verbatim>\<open>&File{...}\<close>, \<^verbatim>\<open>&Folder{...}\<close> and \<^verbatim>\<open>make([]Node, n)\<close> create
  objects that did not exist before. Where the identity of a node matters, the tree is
  read from a store: the object at address \<open>a\<close> is the \<open>a\<close>-th entry, a pointer (the
  value held by a \<^verbatim>\<open>Node\<close> interface) is an address or \<^verbatim>\<open>nil\<close>, and an allocation
  appends to the store. A folder object holds its name and its child pointers; the array
  behind \<^verbatim>\<open>Children\<close> is kept inside the folder object that owns it. An address beyond
  the store leads to no object, and using it panics as \<^verbatim>\<open>nil\<close> does.
\<close>

type_synonym ptr = "nat option"

datatype obj = FileObj string | FolderObj string "ptr list"

type_synonym store = "obj list"

definition deref :: "store \<Rightarrow> nat \<Rightarrow> obj option" where
  "deref s a = (if a < length s then Some (s ! a) else None)"

definition nil_dereference :: string where
  "nil_dereference = ''runtime error: invalid memory address or nil pointer dereference''"

definition index_out_of_range :: string where
  "index_out_of_range = ''runtime error: index out of range''"

definition alloc :: "store \<Rightarrow> obj \<Rightarrow> store \<times> nat" where
  "alloc s ob = (s @ [ob], length s)"

text \<open>\<^verbatim>\<open>x.Name = name\<close> and \<^verbatim>\<open>x.Children[i] = v\<close> on the object at an address.\<close>

definition set_Name :: "store \<Rightarrow> nat \<Rightarrow> string \<Rightarrow> string + store" where
  "set_Name s a name =
     (case deref s a of
        None \<Rightarrow> Inl nil_dereference
      | Some (FileObj old) \<Rightarrow> Inr (s[a := FileObj name])
      | Some (FolderObj old children) \<Rightarrow> Inr (s[a := FolderObj name children]))"

definition set_Child :: "store \<Rightarrow> nat \<Rightarrow> nat \<Rightarrow> ptr \<Rightarrow> string + store" where
  "set_Child s a i v =
     (case deref s a of
        Some (FolderObj name children) \<Rightarrow>
          (if i < length children then Inr (s[a := FolderObj name (children[i := v])])
           else Inl index_out_of_range)
      | _ \<Rightarrow> Inl nil_dereference)"

text \<open>
  \<^verbatim>\<open>Clone\<close> on the store. The recursion follows pointers, so it carries fuel: \<open>None\<close> is
  a call that has not returned within the fuel, \<open>Some (Inl msg)\<close> a panic, and
  \<open>Some (Inr (s', c))\<close> the store after the call with the pointer returned. A folder
  allocates \<^verbatim>\<open>&Folder{Children: make([]Node, len(f.Children))}\<close> (every slot \<^verbatim>\<open>nil\<close>),
  stores the name, and then the loop stores \<^verbatim>\<open>v.Clone()\<close> in slot \<open>i\<close> for each child
  \<open>v\<close>; \<^verbatim>\<open>range\<close> reads \<^verbatim>\<open>f.Children\<close> once, before the first iteration.
\<close>

fun Clone_s :: "nat \<Rightarrow> store \<Rightarrow> ptr \<Rightarrow> (string + store \<times> ptr) option"
  and Clone_s_loop ::
    "nat \<Rightarrow> store \<Rightarrow> nat \<Rightarrow> nat \<Rightarrow> ptr list \<Rightarrow> (string + store) option" where
  "Clone_s 0 s p = None"
| "Clone_s (Suc n) s None = Some (Inl nil_dereference)"
| "Clone_s (Suc n) s (Some a) =
     (case deref s a of
        None \<Rightarrow> Some (Inl nil_dereference)
      | Some (FileObj name) \<Rightarrow>
          (case alloc s (FileObj name) of (s', clone) \<Rightarrow> Some (Inr (s', Some clone)))
      | Some (FolderObj name children) \<Rightarrow>
          (case alloc s (FolderObj [] (replicate (length children) None)) of (s1, clone) \<Rightarrow>
             (case set_Name s1 clone name of
                Inl msg \<Rightarrow> Some (Inl msg)
              | Inr s2 \<Rightarrow>
                  (case Clone_s_loop n s2 clone 0 children of
                     None \<Rightarrow> None
                   | Some (Inl msg) \<Rightarrow> Some (Inl msg)
                   | Some (Inr s3) \<Rightarrow> Some (Inr (s3, Some clone))))))"
| "Clone_s_loop n s clone i [] = Some (Inr s)"
| "Clone_s_loop n s clone i (v # vs) =
     (case Clone_s n s v of
        None \<Rightarrow> None
      | Some (Inl msg) \<Rightarrow> Some (Inl msg)
      | Some (Inr (s', v')) \<Rightarrow>
          (case set_Child s' clone i v' of
             Inl msg \<Rightarrow> Some (Inl msg)
           | Inr s'' \<Rightarrow> Clone_s_loop n s'' clone (Suc i) vs))"

text \<open>\<^verbatim>\<open>WriteEntry\<close> on the store, with fuel in the same way.\<close>

fun WriteEntry_s ::
    "nat \<Rightarrow> ('w, 'e) Writer \<Rightarrow> store \<Rightarrow> ptr \<Rightarrow> 'w \<Rightarrow> WriteOpts \<Rightarrow> ('w \<times> 'e outcome) option"
  and WriteEntry_s_loop ::
    "nat \<Rightarrow> ('w, 'e) Writer \<Rightarrow> store \<Rightarrow> ptr list \<Rightarrow> 'w \<Rightarrow> WriteOpts \<Rightarrow>
       ('w \<times> 'e outcome) option"
  where
  "WriteEntry_s 0 wr s p w opts = None"
| "WriteEntry_s (Suc n) wr s None w opts = Some (w, Panic nil_dereference)"
| "WriteEntry_s (Suc n) wr s (Some a) w opts =
     (case deref s a of
        None \<Rightarrow> Some (w, Panic nil_dereference)
      | Some (FileObj name) \<Rightarrow> Some (File_WriteEntry wr name w opts)
      | Some (FolderObj name children) \<Rightarrow>
          (case File_WriteEntry wr name w opts of
             (w', Return None) \<Rightarrow>
               WriteEntry_s_loop n wr s children w' (opts\<lparr>Level := Level opts + 1\<rparr>)
           | (w', Return (Some err)) \<Rightarrow> Some (w', Return (Some err))
           | (w', Panic msg) \<Rightarrow> Some (w', Panic msg)))"
| "WriteEntry_s_loop n wr s [] w opts = Some (w, Return None)"
| "WriteEntry_s_loop n wr s (v # vs) w opts =
     (case WriteEntry_s n wr s v w opts of
        None \<Rightarrow> None
      | Some (w', Return None) \<Rightarrow> WriteEntry_s_loop n wr s vs w' opts
      | Some (w', Return (Some err)) \<Rightarrow> Some (w', Return (Some err))
      | Some (w', Panic msg) \<Rightarrow> Some (w', Panic msg))"

subsection \<open>The provider factory\<close>

text \<open>
  \<^verbatim>\<open>Customer\<close> and \<^verbatim>\<open>Seller\<close> hold a name; \<^verbatim>\<open>SetName\<close> stores it and \<^verbatim>\<open>String\<close>
  prints it after the kind.
\<close>

datatype Customer = Customer string

datatype Seller = Seller string

fun Customer_SetName :: "Customer \<Rightarrow> string \<Rightarrow> Customer" where
  "Customer_SetName (Customer old) name = Customer name"

fun Customer_String :: "Customer \<Rightarrow> string" where
  "Customer_String (Customer name) = ''Customer: '' @ name"

fun Seller_SetName :: "Seller \<Rightarrow> string \<Rightarrow> Seller" where
  "Seller_SetName (Seller old) name = Seller name"

fun Seller_String :: "Seller \<Rightarrow> string" where
  "Seller_String (Seller name) = ''Seller: '' @ name"

text \<open>The two implementations of the \<^verbatim>\<open>Provider\<close> interface, both empty structs.\<close>

datatype Provider = GoogleAuth | YandexAuth

fun NewCustomer :: "Provider \<Rightarrow> Customer" where
  "NewCustomer YandexAuth = Customer_SetName (Customer []) ''Yandex Customer''"
| "NewCustomer GoogleAuth = Customer_SetName (Customer []) ''Google Customer''"

fun NewSeller :: "Provider \<Rightarrow> Seller" where
  "NewSeller YandexAuth = Seller_SetName (Seller []) ''Yandex Seller''"
| "NewSeller GoogleAuth = Seller_SetName (Seller []) ''Google Seller''"

text \<open>
  \<^verbatim>\<open>AuthFactory\<close>: a switch on the provider string; the default branch panics with
  \<^verbatim>\<open>fmt.Sprintf("unknown provider %s", provider)\<close> (\<open>Inl\<close> holds the panic message).
\<close>

definition AuthFactory :: "string \<Rightarrow> string + Provider" where
  "AuthFactory provider =
     (if provider = ''google'' then Inr GoogleAuth
      else if provider = ''yandex'' then Inr YandexAuth
      else Inl (''unknown provider '' @ provider))"

section \<open>Notions used to state the properties\<close>

subsection \<open>The rendered text\<close>

text \<open>
  The text of a tree, as the specification words it: one line per node, the node itself
  before its children, the children in their order and one level deeper; a line is the
  indent of its depth (four spaces per level), the name and a newline.
\<close>

definition indent :: "nat \<Rightarrow> string" where
  "indent d = replicate (4 * d) CHR '' ''"

definition line :: "nat \<times> string \<Rightarrow> string" where
  "line e = indent (fst e) @ snd e @ [CHR 0x0A]"

fun entries :: "Node \<Rightarrow> nat \<Rightarrow> (nat \<times> string) list" where
  "entries (File name) d = [(d, name)]"
| "entries (Folder name children) d =
     (d, name) # concat (map (\<lambda>c. entries c (Suc d)) children)"

text \<open>
  \<open>fits t d\<close>: in a render of \<open>t\<close> from depth \<open>d\<close>, the indent of every line is at most
  \<open>MaxInt\<close> bytes long, so that no call of \<^verbatim>\<open>strings.Repeat\<close> overflows.
\<close>

definition fits :: "Node \<Rightarrow> nat \<Rightarrow> bool" where
  "fits t d = list_all (\<lambda>e. 4 * int (fst e) \<le> MaxInt) (entries t d)"

text \<open>
  Offering a list of lines to a sink, as the specification asks of a render: in order,
  stopping at the first write that fails and returning its error.
\<close>

fun feed :: "('w, 'e) Writer \<Rightarrow> 'w \<Rightarrow> string list \<Rightarrow> 'w \<times> 'e outcome" where
  "feed wr w [] = (w, Return None)"
| "feed wr w (p # ps) =
     (case wr w p of
        (w', None) \<Rightarrow> feed wr w' ps
      | (w', Some err) \<Rightarrow> (w', Return (Some err)))"

text \<open>
  A sink that also keeps the log of its \<^verbatim>\<open>Write\<close> calls, each with the error it
  returned; \<open>clean\<close> says that no call in a log failed.
\<close>

definition recording :: "('w, 'e) Writer \<Rightarrow> ('w \<times> (string \<times> 'e option) list, 'e) Writer" where
  "recording wr st p =
     (case wr (fst st) p of (w', err) \<Rightarrow> ((w', snd st @ [(p, err)]), err))"

definition clean :: "(string \<times> 'e option) list \<Rightarrow> bool" where
  "clean log = list_all (\<lambda>x. snd x = None) log"

text \<open>A sink that holds ten bytes and rejects the write that would exceed them.\<close>

definition full_sink :: "(string, string) Writer" where
  "full_sink w p = (if length w + length p \<le> 10 then (w @ p, None) else (w, Some ''full''))"

subsection \<open>Trees in a store\<close>

text \<open>
  \<open>tree_in A s p t\<close>: the objects reached from pointer \<open>p\<close> in store \<open>s\<close> form the tree
  \<open>t\<close> (names, number and order of children at every depth), and each of them lies at an
  address in the region \<open>A\<close>. \<open>tree_at\<close> leaves the region open; \<open>nodes_of\<close> lists the
  addresses of the node objects of the tree.
\<close>

fun tree_in :: "(nat \<Rightarrow> bool) \<Rightarrow> store \<Rightarrow> ptr \<Rightarrow> Node \<Rightarrow> bool"
  and trees_in :: "(nat \<Rightarrow> bool) \<Rightarrow> store \<Rightarrow> ptr list \<Rightarrow> Node list \<Rightarrow> bool" where
  "tree_in A s p (File name) =
     (case p of None \<Rightarrow> False | Some a \<Rightarrow> A a \<and> deref s a = Some (FileObj name))"
| "tree_in A s p (Folder name ts) =
     (case p of
        None \<Rightarrow> False
      | Some a \<Rightarrow>
          A a \<and>
          (case deref s a of
             Some (FolderObj name' ps) \<Rightarrow> name' = name \<and> trees_in A s ps ts
           | _ \<Rightarrow> False))"
| "trees_in A s [] [] = True"
| "trees_in A s (p # ps) (t # ts) = (tree_in A s p t \<and> trees_in A s ps ts)"
| "trees_in A s [] (t # ts) = False"
| "trees_in A s (p # ps) [] = False"

definition tree_at :: "store \<Rightarrow> ptr \<Rightarrow> Node \<Rightarrow> bool" where
  "tree_at s p t = tree_in (\<lambda>a. True) s p t"

fun nodes_of :: "store \<Rightarrow> ptr \<Rightarrow> Node \<Rightarrow> nat list"
  and nodes_of_list :: "store \<Rightarrow> ptr list \<Rightarrow> Node list \<Rightarrow> nat list" where
  "nodes_of s p (File name) = (case p of None \<Rightarrow> [] | Some a \<Rightarrow> [a])"
| "nodes_of s p (Folder name ts) =
     (case p of
        None \<Rightarrow> []
      | Some a \<Rightarrow>
          a # (case deref s a of Some (FolderObj name' ps) \<Rightarrow> nodes_of_list s ps ts | _ \<Rightarrow> []))"
| "nodes_of_list s (p # ps) (t # ts) = nodes_of s p t @ nodes_of_list s ps ts"
| "nodes_of_list s [] ts = []"
| "nodes_of_list s ps [] = []"

text \<open>The example tree of \<^verbatim>\<open>main\<close>, and the same tree laid out in a store.\<close>

definition example_tree :: Node where
  "example_tree =
     Folder ''root''
       [File ''file1'', File ''file2'', Folder ''subfolder'' [File ''file3'', File ''file4'']]"

definition example_store :: store where
  "example_store =
     [FolderObj ''root'' [Some 1, Some 2, Some 3], FileObj ''file1'', FileObj ''file2'',
      FolderObj ''subfolder'' [Some 4, Some 5], FileObj ''file3'', FileObj ''file4'']"

text \<open>The objects that \<^verbatim>\<open>Clone\<close> adds to that store for the example tree.\<close>

definition example_store_clone :: store where
  "example_store_clone =
     [FolderObj ''root'' [Some 7, Some 8, Some 9], FileObj ''file1'', FileObj ''file2'',
      FolderObj ''subfolder'' [Some 10, Some 11], FileObj ''file3'', FileObj ''file4'']"

section \<open>Properties\<close>

subsection \<open>What a render writes\<close>

lemma replicate_four: "replicate (4 + m) x = x # x # x # x # replicate m x"
proof -
  have "4 + m = Suc (Suc (Suc (Suc m)))" by simp
  then show ?thesis by (simp only: replicate.simps)
qed

lemma concat_replicate_spaces: "concat (replicate k ''    '') = replicate (4 * k) CHR '' ''"
  by (induction k) (simp_all add: replicate_four)

lemma Repeat_nonneg: "0 \<le> n \<Longrightarrow> Repeat ''    '' n = Inr (indent (nat n))"
  by (simp add: Repeat_def indent_def concat_replicate_spaces)

lemma Repeat_neg: "n < 0 \<Longrightarrow> Repeat s n = Inl ''strings: negative Repeat count''"
  by (simp add: Repeat_def)

lemma File_WriteEntry_feed:
  "0 \<le> Level opts \<Longrightarrow>
   File_WriteEntry wr name w opts = feed wr w [line (nat (Level opts), name)]"
  by (simp add: File_WriteEntry_def Repeat_nonneg line_def split: prod.splits option.splits)

lemma feed_append:
  "feed wr w (ps @ qs) =
     (case feed wr w ps of
        (w', Return None) \<Rightarrow> feed wr w' qs
      | (w', Return (Some err)) \<Rightarrow> (w', Return (Some err))
      | (w', Panic msg) \<Rightarrow> (w', Panic msg))"
  by (induction ps arbitrary: w) (auto split: prod.splits option.splits outcome.splits)

text \<open>
  By the definitions, from a level that is not negative a render offers the lines of the
  tree to the sink, in order, until a write fails. (Of the program this holds where the
  lines fit, since \<open>Repeat\<close> has no overflow branch.)
\<close>

lemma WriteEntry_feed:
  "0 \<le> Level opts \<Longrightarrow>
     WriteEntry wr t w opts = feed wr w (map line (entries t (nat (Level opts))))"
  and WriteEntry_loop_feed:
  "0 \<le> Level opts \<Longrightarrow>
     WriteEntry_loop wr ts w opts =
       feed wr w (map line (concat (map (\<lambda>c. entries c (nat (Level opts))) ts)))"
proof (induction wr t w opts and wr ts w opts rule: WriteEntry_WriteEntry_loop.induct)
  case (1 wr name w opts)
  then show ?case by (simp add: File_WriteEntry_feed)
next
  case (2 wr name children w opts)
  have suc: "nat (Level opts + 1) = Suc (nat (Level opts))" using 2 by simp
  show ?case
    using 2
    by (simp add: File_WriteEntry_feed suc split: prod.splits option.splits outcome.splits)
next
  case (3 wr w opts)
  then show ?case by simp
next
  case (4 wr v vs w opts)
  then show ?case
    by (auto simp: feed_append split: prod.splits option.splits outcome.splits)
qed

text \<open>From a negative level the first line already panics, before any write.\<close>

lemma WriteEntry_negative:
  "Level opts < 0 \<Longrightarrow> WriteEntry wr t w opts = (w, Panic ''strings: negative Repeat count'')"
  by (cases t) (simp_all add: File_WriteEntry_def Repeat_neg)

lemma feed_Builder: "feed Builder_Write sb ps = (sb @ concat ps, Return None)"
  by (induction ps arbitrary: sb) (simp_all add: Builder_Write_def)

lemma WriteEntry_Builder:
  "WriteEntry Builder_Write t sb \<lparr>Level = int d\<rparr> =
     (sb @ concat (map line (entries t d)), Return None)"
  by (simp add: WriteEntry_feed feed_Builder)

lemma WriteEntry_Builder_any:
  "WriteEntry Builder_Write t sb opts =
     (sb @ fst (WriteEntry Builder_Write t [] opts), snd (WriteEntry Builder_Write t [] opts))"
proof (cases "0 \<le> Level opts")
  case True
  then show ?thesis by (simp add: WriteEntry_feed feed_Builder)
next
  case False
  then show ?thesis by (simp add: WriteEntry_negative)
qed

lemma WriteEntry_Builder_no_error:
  "snd (WriteEntry Builder_Write t sb opts) \<noteq> Return (Some e)"
proof (cases "0 \<le> Level opts")
  case True
  then show ?thesis by (simp add: WriteEntry_feed feed_Builder)
next
  case False
  then show ?thesis by (simp add: WriteEntry_negative)
qed

lemma entries_nonempty: "entries t d \<noteq> []"
  by (cases t) simp_all

lemma concat_lines_end:
  "es \<noteq> [] \<Longrightarrow> \<exists>body. concat (map line es) = body @ [CHR 0x0A]"
proof (induction es rule: rev_induct)
  case Nil
  then show ?case by simp
next
  case (snoc e es)
  have "concat (map line (es @ [e])) =
      (concat (map line es) @ indent (fst e) @ snd e) @ [CHR 0x0A]"
    by (simp add: line_def)
  then show ?case by blast
qed

lemma lines_of_children:
  "concat (map line (concat (map (\<lambda>c. entries c d) cs))) =
     concat (map (\<lambda>c. concat (map line (entries c d))) cs)"
  by (induction cs) simp_all

lemma Clone_id: "Clone t = t"
  by (induction t) (simp_all add: map_idI)

subsection \<open>The log of a render\<close>

lemma recording_apply:
  "recording wr (w, log) p = (case wr w p of (w', err) \<Rightarrow> ((w', log @ [(p, err)]), err))"
  by (simp add: recording_def)

lemma clean_nth: "clean log \<Longrightarrow> i < length log \<Longrightarrow> snd (log ! i) = None"
  by (simp add: clean_def list_all_length)

lemma clean_mem: "clean log \<Longrightarrow> (p, Some e) \<notin> set log"
  by (auto simp: clean_def list_all_iff)

text \<open>
  The log after feeding a recording sink: the calls are an initial part of the lines; either
  all lines were written and none failed, or the last call is the only one that failed and
  its error is the result. The sink below the recorder ends as it would without it.
\<close>

lemma feed_recording:
  "feed (recording wr) (w, log0) ps = ((w', log), r) \<Longrightarrow>
   feed wr w ps = (w', r) \<and>
   (\<exists>new. log = log0 @ new \<and> map fst new = take (length new) ps \<and>
      ((r = Return None \<and> length new = length ps \<and> clean new) \<or>
       (\<exists>e pre p. r = Return (Some e) \<and> new = pre @ [(p, Some e)] \<and> clean pre)))"
proof (induction ps arbitrary: w log0)
  case Nil
  then show ?case by (auto simp: clean_def)
next
  case (Cons p ps)
  obtain w1 err where wr: "wr w p = (w1, err)" by (cases "wr w p")
  show ?case
  proof (cases err)
    case None
    with Cons.prems wr have run: "feed (recording wr) (w1, log0 @ [(p, None)]) ps = ((w', log), r)"
      by (simp add: recording_apply)
    from Cons.IH [OF run] obtain new where
      f: "feed wr w1 ps = (w', r)" and
      l: "log = (log0 @ [(p, None)]) @ new" and
      m: "map fst new = take (length new) ps" and
      d: "(r = Return None \<and> length new = length ps \<and> clean new) \<or>
          (\<exists>e pre q. r = Return (Some e) \<and> new = pre @ [(q, Some e)] \<and> clean pre)"
      by blast
    have 1: "feed wr w (p # ps) = (w', r)" using wr None f by simp
    have 2: "log = log0 @ ((p, None) # new)" using l by simp
    have 3: "map fst ((p, None) # new) = take (length ((p, None) # new)) (p # ps)"
      using m by simp
    have 4: "(r = Return None \<and> length ((p, None) # new) = length (p # ps) \<and>
           clean ((p, None) # new)) \<or>
          (\<exists>e pre q. r = Return (Some e) \<and> (p, None) # new = pre @ [(q, Some e)] \<and> clean pre)"
      using d
    proof
      assume "r = Return None \<and> length new = length ps \<and> clean new"
      then show ?thesis by (simp add: clean_def)
    next
      assume "\<exists>e pre q. r = Return (Some e) \<and> new = pre @ [(q, Some e)] \<and> clean pre"
      then obtain e pre q where "r = Return (Some e)" "new = pre @ [(q, Some e)]" "clean pre"
        by blast
      then have "r = Return (Some e) \<and> (p, None) # new = ((p, None) # pre) @ [(q, Some e)] \<and>
          clean ((p, None) # pre)"
        by (simp add: clean_def)
      then show ?thesis by blast
    qed
    from 1 2 3 4 show ?thesis by blast
  next
    case (Some e)
    with Cons.prems wr have "w' = w1" "log = log0 @ [(p, Some e)]" "r = Return (Some e)"
      by (simp_all add: recording_apply)
    moreover have "[(p, Some e)] = [] @ [(p, Some e)] \<and> clean ([] :: (string \<times> 'e option) list)"
      by (simp add: clean_def)
    ultimately show ?thesis using wr Some by (auto simp: clean_def)
  qed
qed

subsection \<open>Trees in a store\<close>

text \<open>
  A tree stays where it is when the store changes outside the objects it is made of, and
  its region may be widened.
\<close>

lemma tree_in_frame:
  "tree_in A s p t \<Longrightarrow>
     (\<And>x ob. A x \<Longrightarrow> deref s x = Some ob \<Longrightarrow> B x \<and> deref s2 x = Some ob) \<Longrightarrow>
   tree_in B s2 p t"
  and trees_in_frame:
  "trees_in A s ps ts \<Longrightarrow>
     (\<And>x ob. A x \<Longrightarrow> deref s x = Some ob \<Longrightarrow> B x \<and> deref s2 x = Some ob) \<Longrightarrow>
   trees_in B s2 ps ts"
proof (induction A s p t and A s ps ts rule: tree_in_trees_in.induct)
  case (1 A s p name)
  then show ?case by (auto split: option.splits)
next
  case (2 A s p name ts)
  then show ?case by (fastforce split: option.splits obj.splits)
qed auto


text \<open>
  The loop of \<^verbatim>\<open>Folder.Clone\<close>: with the slots before \<open>i\<close> filled and the others
  \<^verbatim>\<open>nil\<close>, it fills the remaining slots with clones that lie above the store it started
  from, and changes no other object that existed.
\<close>

lemma Clone_s_loop_ok:
  assumes IH: "\<And>t s p A. t \<in> set ts0 \<Longrightarrow> tree_in A s p t \<Longrightarrow>
      \<exists>s'. Clone_s n s p = Some (Inr (s', Some (length s))) \<and> length s < length s' \<and>
        take (length s) s' = s \<and> tree_in (\<lambda>x. length s \<le> x) s' (Some (length s)) t"
  shows "trees_in (\<lambda>x. x < c) s vs ts \<Longrightarrow> set ts \<subseteq> set ts0 \<Longrightarrow> c < length s \<Longrightarrow>
     deref s c = Some (FolderObj name (filled @ replicate (length vs) None)) \<Longrightarrow>
     \<exists>s'. Clone_s_loop n s c (length filled) vs = Some (Inr s') \<and> length s \<le> length s' \<and>
       (\<forall>x<length s. x \<noteq> c \<longrightarrow> s' ! x = s ! x) \<and>
       (\<exists>new. deref s' c = Some (FolderObj name (filled @ new)) \<and>
          trees_in (\<lambda>x. length s \<le> x) s' new ts)"
proof (induction vs arbitrary: s ts filled)
  case Nil
  then have "ts = []" by (cases ts) simp_all
  with Nil show ?case by simp
next
  case (Cons v vs)
  from Cons.prems(1) obtain t ts' where ts: "ts = t # ts'" by (cases ts) simp_all
  with Cons.prems have v: "tree_in (\<lambda>x. x < c) s v t" and rest: "trees_in (\<lambda>x. x < c) s vs ts'"
    and t0: "t \<in> set ts0" and sub: "set ts' \<subseteq> set ts0"
    by simp_all
  from IH [OF t0 v] obtain s1 where
    cl: "Clone_s n s v = Some (Inr (s1, Some (length s)))" and len1: "length s < length s1"
    and keep1: "take (length s) s1 = s"
    and new1: "tree_in (\<lambda>x. length s \<le> x) s1 (Some (length s)) t"
    by blast
  have nth1: "\<And>x. x < length s \<Longrightarrow> s1 ! x = s ! x"
    using keep1 by (metis nth_take)
  let ?v' = "Some (length s)"
  let ?s2 = "s1[c := FolderObj name ((filled @ [?v']) @ replicate (length vs) None)]"
  have c1: "deref s1 c = Some (FolderObj name (filled @ replicate (length (v # vs)) None))"
    using Cons.prems(3,4) len1 nth1 by (simp add: deref_def)
  have sc: "set_Child s1 c (length filled) ?v' = Inr ?s2"
    using c1 by (simp add: set_Child_def list_update_append)
  have rest2: "trees_in (\<lambda>x. x < c) ?s2 vs ts'"
  proof (rule trees_in_frame [OF rest])
    fix x ob assume "x < c" "deref s x = Some ob"
    then show "x < c \<and> deref ?s2 x = Some ob"
      using Cons.prems(3) len1 nth1 by (simp add: deref_def split: if_splits)
  qed
  have c2: "deref ?s2 c = Some (FolderObj name ((filled @ [?v']) @ replicate (length vs) None))"
    using Cons.prems(3) len1 by (simp add: deref_def)
  have lt2: "c < length ?s2" using Cons.prems(3) len1 by simp
  from Cons.IH [OF rest2 sub lt2 c2] obtain s' new where
    loop: "Clone_s_loop n ?s2 c (length (filled @ [?v'])) vs = Some (Inr s')"
    and len': "length ?s2 \<le> length s'"
    and keep': "\<forall>x<length ?s2. x \<noteq> c \<longrightarrow> s' ! x = ?s2 ! x"
    and c': "deref s' c = Some (FolderObj name ((filled @ [?v']) @ new))"
    and new': "trees_in (\<lambda>x. length ?s2 \<le> x) s' new ts'"
    by blast
  have a: "Clone_s_loop n s c (length filled) (v # vs) = Some (Inr s')"
    using cl sc loop by simp
  have b: "length s \<le> length s'" using len1 len' by simp
  have d: "\<forall>x<length s. x \<noteq> c \<longrightarrow> s' ! x = s ! x"
    using keep' len1 nth1 by simp
  have e: "tree_in (\<lambda>x. length s \<le> x) s' ?v' t"
  proof (rule tree_in_frame [OF new1])
    fix x ob assume "length s \<le> x" "deref s1 x = Some ob"
    then show "length s \<le> x \<and> deref s' x = Some ob"
      using keep' len' Cons.prems(3) by (simp add: deref_def split: if_splits)
  qed
  have f: "trees_in (\<lambda>x. length s \<le> x) s' new ts'"
  proof (rule trees_in_frame [OF new'])
    fix x ob assume "length ?s2 \<le> x" "deref s' x = Some ob"
    then show "length s \<le> x \<and> deref s' x = Some ob" using len1 by simp
  qed
  have g: "deref s' c = Some (FolderObj name (filled @ (?v' # new)))" using c' by simp
  have "trees_in (\<lambda>x. length s \<le> x) s' (?v' # new) ts" using e f ts by simp
  with a b d g show ?case by blast
qed

lemma Clone_s_ok:
  "tree_in A s p t \<Longrightarrow> size t < n \<Longrightarrow>
     \<exists>s'. Clone_s n s p = Some (Inr (s', Some (length s))) \<and> length s < length s' \<and>
       take (length s) s' = s \<and> tree_in (\<lambda>x. length s \<le> x) s' (Some (length s)) t"
proof (induction t arbitrary: s p n A)
  case (File name)
  then obtain a m where "p = Some a" "deref s a = Some (FileObj name)" "n = Suc m"
    by (cases p; cases n) simp_all
  then show ?case by (simp add: alloc_def deref_def)
next
  case (Folder name ts)
  from Folder.prems obtain a m ps where p: "p = Some a" and n: "n = Suc m"
    and a: "deref s a = Some (FolderObj name ps)" and kids: "trees_in A s ps ts"
    by (cases p; cases n) (auto split: option.splits obj.splits)
  let ?c = "length s"
  let ?s2 = "s @ [FolderObj name (replicate (length ps) None)]"
  have small: "\<And>t. t \<in> set ts \<Longrightarrow> size t < m"
    using Folder.prems(2) n by (auto dest: size_list_estimation' [where f = size, OF _ order_refl])
  have IH: "\<And>t s p A. t \<in> set ts \<Longrightarrow> tree_in A s p t \<Longrightarrow>
      \<exists>s'. Clone_s m s p = Some (Inr (s', Some (length s))) \<and> length s < length s' \<and>
        take (length s) s' = s \<and> tree_in (\<lambda>x. length s \<le> x) s' (Some (length s)) t"
    using Folder.IH small by blast
  have sn: "set_Name (s @ [FolderObj [] (replicate (length ps) None)]) ?c name = Inr ?s2"
    by (simp add: set_Name_def deref_def)
  have kids2: "trees_in (\<lambda>x. x < ?c) ?s2 ps ts"
  proof (rule trees_in_frame [OF kids])
    fix x ob assume "A x" "deref s x = Some ob"
    then show "x < ?c \<and> deref ?s2 x = Some ob"
      by (simp add: deref_def nth_append split: if_splits)
  qed
  have c2: "deref ?s2 ?c = Some (FolderObj name ([] @ replicate (length ps) None))"
    by (simp add: deref_def)
  have c_lt: "?c < length ?s2" by simp
  have "\<exists>s'. Clone_s_loop m ?s2 ?c (length ([] :: ptr list)) ps = Some (Inr s') \<and>
       length ?s2 \<le> length s' \<and>
       (\<forall>x<length ?s2. x \<noteq> ?c \<longrightarrow> s' ! x = ?s2 ! x) \<and>
       (\<exists>new. deref s' ?c = Some (FolderObj name ([] @ new)) \<and>
          trees_in (\<lambda>x. length ?s2 \<le> x) s' new ts)"
    using IH by (rule Clone_s_loop_ok [OF _ kids2 subset_refl c_lt c2]) 
  then obtain s3 new where
    loop: "Clone_s_loop m ?s2 ?c 0 ps = Some (Inr s3)" and len3: "length ?s2 \<le> length s3"
    and keep3: "\<forall>x<length ?s2. x \<noteq> ?c \<longrightarrow> s3 ! x = ?s2 ! x"
    and c3: "deref s3 ?c = Some (FolderObj name new)"
    and new3: "trees_in (\<lambda>x. length ?s2 \<le> x) s3 new ts"
    by auto
  have r: "Clone_s n s p = Some (Inr (s3, Some ?c))"
    using p n a sn loop by (simp add: alloc_def)
  have l: "length s < length s3" using len3 by simp
  have k: "take (length s) s3 = s"
    using keep3 len3 by (auto simp: list_eq_iff_nth_eq nth_append)
  have "trees_in (\<lambda>x. ?c \<le> x) s3 new ts"
  proof (rule trees_in_frame [OF new3])
    fix x ob assume "length ?s2 \<le> x" "deref s3 x = Some ob"
    then show "?c \<le> x \<and> deref s3 x = Some ob" by simp
  qed
  then have "tree_in (\<lambda>x. ?c \<le> x) s3 (Some ?c) (Folder name ts)" using c3 by simp
  with r l k show ?case by blast
qed


text \<open>On a tree, the render from the store is the render of the tree.\<close>

lemma WriteEntry_s_tree:
  "tree_in A s p t \<Longrightarrow> size t < n \<Longrightarrow>
     WriteEntry_s n wr s p w opts = Some (WriteEntry wr t w opts)"
  and WriteEntry_s_loop_trees:
  "trees_in A s ps ts \<Longrightarrow> (\<forall>t\<in>set ts. size t < n) \<Longrightarrow>
     WriteEntry_s_loop n wr s ps w opts = Some (WriteEntry_loop wr ts w opts)"
proof (induction A s p t and A s ps ts arbitrary: n w opts and n w opts
    rule: tree_in_trees_in.induct)
  case (1 A s p name)
  then obtain a m where "p = Some a" "deref s a = Some (FileObj name)" "n = Suc m"
    by (cases p; cases n) simp_all
  then show ?case by simp
next
  case (2 A s p name ts)
  from "2.prems" obtain a m ps where p: "p = Some a" and n: "n = Suc m"
    and a: "deref s a = Some (FolderObj name ps)" and kids: "trees_in A s ps ts"
    by (cases p; cases n) (auto split: option.splits obj.splits)
  have small: "\<forall>t\<in>set ts. size t < m"
    using "2.prems"(2) n by (auto dest: size_list_estimation' [where f = size, OF _ order_refl])
  have loop: "\<And>w opts. WriteEntry_s_loop m wr s ps w opts = Some (WriteEntry_loop wr ts w opts)"
    by (rule "2.IH" [OF p a refl kids small])
  obtain w' r where f: "File_WriteEntry wr name w opts = (w', r)"
    by (cases "File_WriteEntry wr name w opts")
  show ?case
  proof (cases r)
    case (Return err)
    then show ?thesis using p n a f loop by (cases err) simp_all
  next
    case (Panic msg)
    then show ?thesis using p n a f by simp
  qed
next
  case (3 A s)
  then show ?case by simp
next
  case (4 A s p ps t ts)
  from "4.prems" have pt: "tree_in A s p t" and rest: "trees_in A s ps ts"
    and st: "size t < n" and sts: "\<forall>t\<in>set ts. size t < n" by simp_all
  have hd: "WriteEntry_s n wr s p w opts = Some (WriteEntry wr t w opts)"
    by (rule "4.IH"(1) [OF pt st])
  have tl: "\<And>w. WriteEntry_s_loop n wr s ps w opts = Some (WriteEntry_loop wr ts w opts)"
    by (rule "4.IH"(2) [OF rest sts])
  obtain w' r where f: "WriteEntry wr t w opts = (w', r)"
    by (cases "WriteEntry wr t w opts")
  show ?case
  proof (cases r)
    case (Return err)
    then show ?thesis using hd f tl by (cases err) simp_all
  next
    case (Panic msg)
    then show ?thesis using hd f by simp
  qed
next
  case (5 A s t ts)
  then show ?case by simp
next
  case (6 A s p ps)
  then show ?case by simp
qed


lemma deref_Some_lt: "deref s a = Some ob \<Longrightarrow> a < length s"
  by (simp add: deref_def split: if_splits)

lemma nodes_of_in:
  "tree_in A s p t \<Longrightarrow> x \<in> set (nodes_of s p t) \<Longrightarrow> A x \<and> x < length s"
  and nodes_of_list_in:
  "trees_in A s ps ts \<Longrightarrow> x \<in> set (nodes_of_list s ps ts) \<Longrightarrow> A x \<and> x < length s"
proof (induction A s p t and A s ps ts rule: tree_in_trees_in.induct)
  case (1 A s p name)
  then obtain a where "p = Some a" "A a" "deref s a = Some (FileObj name)"
    by (cases p) simp_all
  with "1.prems"(2) show ?case by (simp add: deref_Some_lt)
next
  case (2 A s p name ts)
  from "2.prems"(1) obtain a ps where p: "p = Some a" and A: "A a"
    and a: "deref s a = Some (FolderObj name ps)" and kids: "trees_in A s ps ts"
    by (cases p) (auto split: option.splits obj.splits)
  from "2.prems"(2) p a have "x = a \<or> x \<in> set (nodes_of_list s ps ts)" by simp
  then show ?case
  proof
    assume "x = a"
    then show ?thesis using A a by (simp add: deref_Some_lt)
  next
    assume "x \<in> set (nodes_of_list s ps ts)"
    then show ?thesis by (rule "2.IH" [OF p a refl kids])
  qed
next
  case (4 A s p ps t ts)
  then show ?case by auto
qed simp_all

lemma tree_in_update_outside:
  "tree_in A s p t \<Longrightarrow> \<not> A x \<Longrightarrow> tree_in A (s[x := ob]) p t"
proof (erule tree_in_frame)
  fix y ob' assume "\<not> A x" "A y" "deref s y = Some ob'"
  then have "x \<noteq> y" "A y" "deref s y = Some ob'" by auto
  then show "A y \<and> deref (s[x := ob]) y = Some ob'"
    by (simp add: deref_def split: if_splits)
qed

lemma tree_in_any: "tree_in A s p t \<Longrightarrow> tree_at s p t"
  unfolding tree_at_def by (erule tree_in_frame) simp

text \<open>
  Fuel beyond what a call needs does not change what it returns; so the results below do
  not depend on the fuel given.
\<close>

lemma Clone_s_fuel:
  "Clone_s n s p = Some r \<Longrightarrow> Clone_s (Suc n) s p = Some r"
  and Clone_s_loop_fuel:
  "Clone_s_loop n s c i vs = Some r' \<Longrightarrow> Clone_s_loop (Suc n) s c i vs = Some r'"
proof (induction n s p and n s c i vs arbitrary: r and r' rule: Clone_s_Clone_s_loop.induct)
  case (1 s p)
  then show ?case by simp
next
  case (2 n s)
  then show ?case by simp
next
  case (3 n s a)
  show ?case
  proof (cases "deref s a")
    case None
    with 3 show ?thesis by simp
  next
    case (Some ob)
    show ?thesis
    proof (cases ob)
      case (FileObj name)
      with 3 Some show ?thesis by simp
    next
      case (FolderObj name children)
      obtain s1 clone where al: "alloc s (FolderObj [] (replicate (length children) None)) = (s1, clone)"
        by (cases "alloc s (FolderObj [] (replicate (length children) None))")
      show ?thesis
      proof (cases "set_Name s1 clone name")
        case (Inl msg)
        with 3 Some FolderObj al show ?thesis by simp
      next
        case (Inr s2)
        from "3.prems" Some FolderObj al Inr obtain q where
          q: "Clone_s_loop n s2 clone 0 children = Some q"
          by (cases "Clone_s_loop n s2 clone 0 children") simp_all
        have "Clone_s_loop (Suc n) s2 clone 0 children = Some q"
          by (rule "3.IH" [OF Some FolderObj al [symmetric] Inr q])
        with "3.prems" Some FolderObj al Inr q show ?thesis by simp
      qed
    qed
  qed
next
  case (4 n s clone i)
  then show ?case by simp
next
  case (5 n s clone i v vs)
  from "5.prems" obtain q where q: "Clone_s n s v = Some q"
    by (cases "Clone_s n s v") simp_all
  have q': "Clone_s (Suc n) s v = Some q" by (rule "5.IH"(1) [OF q])
  show ?case
  proof (cases q)
    case (Inl msg)
    with "5.prems" q q' show ?thesis by simp
  next
    case (Inr pr)
    obtain s' v' where pr: "pr = (s', v')" by (cases pr)
    show ?thesis
    proof (cases "set_Child s' clone i v'")
      case (Inl msg)
      with "5.prems" q \<open>q = Inr pr\<close> pr have "r' = Inl msg" by simp
      with q' \<open>q = Inr pr\<close> pr Inl show ?thesis by simp
    next
      case (Inr s'')
      have "Clone_s_loop (Suc n) s'' clone (Suc i) vs = Some r'"
        using "5.IH"(2) [OF q \<open>q = Inr pr\<close> pr [symmetric] Inr] "5.prems" q \<open>q = Inr pr\<close> pr Inr
        by simp
      with q' \<open>q = Inr pr\<close> pr Inr show ?thesis by simp
    qed
  qed
qed

lemma Clone_s_fuel_le: "Clone_s n s p = Some r \<Longrightarrow> n \<le> m \<Longrightarrow> Clone_s m s p = Some r"
  by (induction m) (auto simp: le_Suc_eq intro: Clone_s_fuel)

lemma tree_in_extend:
  assumes t: "tree_in A s p t" and keep: "take (length s) s' = s"
  shows "tree_in (\<lambda>x. x < length s) s' p t"
proof (rule tree_in_frame [OF t])
  fix x ob assume "deref s x = Some ob"
  then have lt: "x < length s" and ob: "s ! x = ob" by (simp_all add: deref_def split: if_splits)
  have "length s \<le> length s'" using arg_cong [OF keep, of length] by simp
  moreover have "s' ! x = s ! x" using keep lt by (metis nth_take)
  ultimately show "x < length s \<and> deref s' x = Some ob" using lt ob by (simp add: deref_def)
qed

subsection \<open>The claims about the tree\<close>

text \<open>
  C1. Rendering the clone equals rendering the original: for every tree, sink and
  level, \<^verbatim>\<open>WriteEntry\<close> on the clone leaves the sink in the same state and returns the
  same outcome as \<^verbatim>\<open>WriteEntry\<close> on the original. On the store as well: after \<^verbatim>\<open>Clone\<close>
  has run on a tree, the render from the pointer it returned and the render from the
  original pointer are both the render of that tree.
\<close>

theorem Clone_render_equal:
  "WriteEntry wr (Clone t) w opts = WriteEntry wr t w opts \<and>
   (tree_at s p t \<longrightarrow>
      (\<exists>s' c. \<forall>n. size t < n \<longrightarrow>
         Clone_s n s p = Some (Inr (s', Some c)) \<and>
         WriteEntry_s n wr s' (Some c) w opts = Some (WriteEntry wr t w opts) \<and>
         WriteEntry_s n wr s' p w opts = Some (WriteEntry wr t w opts) \<and>
         WriteEntry_s n wr s p w opts = Some (WriteEntry wr t w opts)))"
proof (intro conjI impI)
  show "WriteEntry wr (Clone t) w opts = WriteEntry wr t w opts" by (simp add: Clone_id)
next
  assume "tree_at s p t"
  then have orig: "tree_in (\<lambda>a. True) s p t" by (simp add: tree_at_def)
  from Clone_s_ok [OF orig lessI] obtain s' where
    run: "Clone_s (Suc (size t)) s p = Some (Inr (s', Some (length s)))"
    and keep: "take (length s) s' = s"
    and cl: "tree_in (\<lambda>x. length s \<le> x) s' (Some (length s)) t"
    by blast
  have "\<forall>n. size t < n \<longrightarrow>
         Clone_s n s p = Some (Inr (s', Some (length s))) \<and>
         WriteEntry_s n wr s' (Some (length s)) w opts = Some (WriteEntry wr t w opts) \<and>
         WriteEntry_s n wr s' p w opts = Some (WriteEntry wr t w opts) \<and>
         WriteEntry_s n wr s p w opts = Some (WriteEntry wr t w opts)"
  proof (intro allI impI conjI)
    fix n assume fuel: "size t < n"
    then show "Clone_s n s p = Some (Inr (s', Some (length s)))"
      by (intro Clone_s_fuel_le [OF run]) simp
    show "WriteEntry_s n wr s' (Some (length s)) w opts = Some (WriteEntry wr t w opts)"
      by (rule WriteEntry_s_tree [OF cl fuel])
    show "WriteEntry_s n wr s' p w opts = Some (WriteEntry wr t w opts)"
      by (rule WriteEntry_s_tree [OF tree_in_extend [OF orig keep] fuel])
    show "WriteEntry_s n wr s p w opts = Some (WriteEntry wr t w opts)"
      by (rule WriteEntry_s_tree [OF orig fuel])
  qed
  then show "\<exists>s' c. \<forall>n. size t < n \<longrightarrow>
         Clone_s n s p = Some (Inr (s', Some c)) \<and>
         WriteEntry_s n wr s' (Some c) w opts = Some (WriteEntry wr t w opts) \<and>
         WriteEntry_s n wr s' p w opts = Some (WriteEntry wr t w opts) \<and>
         WriteEntry_s n wr s p w opts = Some (WriteEntry wr t w opts)"
    by blast
qed

lemma example_tree_at: "tree_at example_store (Some 0) example_tree"
  by (simp add: tree_at_def example_store_def example_tree_def deref_def)

lemma example_size: "size example_tree < 20"
  by (simp add: example_tree_def)

lemma example_Clone_s:
  "Clone_s 20 example_store (Some 0) = Some (Inr (example_store @ example_store_clone, Some 6))"
  by code_simp

theorem Clone_render_equal_witness:
  "tree_at example_store (Some 0) example_tree \<and>
   Clone_s 20 example_store (Some 0) =
     Some (Inr (example_store @ example_store_clone, Some 6)) \<and>
   WriteEntry_s 20 (Builder_Write :: (string, unit) Writer)
       (example_store @ example_store_clone) (Some 6) [] \<lparr>Level = 0\<rparr> =
     Some (WriteEntry Builder_Write example_tree [] \<lparr>Level = 0\<rparr>) \<and>
   WriteEntry_s 20 (Builder_Write :: (string, unit) Writer)
       (example_store @ example_store_clone) (Some 0) [] \<lparr>Level = 0\<rparr> =
     Some (WriteEntry Builder_Write example_tree [] \<lparr>Level = 0\<rparr>)"
proof -
  from Clone_render_equal [of "Builder_Write :: (string, unit) Writer" example_tree "[]"
      "\<lparr>Level = 0\<rparr>" example_store "Some 0"] example_tree_at
  obtain s' c where all: "\<forall>n. size example_tree < n \<longrightarrow>
         Clone_s n example_store (Some 0) = Some (Inr (s', Some c)) \<and>
         WriteEntry_s n (Builder_Write :: (string, unit) Writer) s' (Some c) [] \<lparr>Level = 0\<rparr> =
           Some (WriteEntry Builder_Write example_tree [] \<lparr>Level = 0\<rparr>) \<and>
         WriteEntry_s n (Builder_Write :: (string, unit) Writer) s' (Some 0) [] \<lparr>Level = 0\<rparr> =
           Some (WriteEntry Builder_Write example_tree [] \<lparr>Level = 0\<rparr>) \<and>
         WriteEntry_s n (Builder_Write :: (string, unit) Writer) example_store (Some 0) []
             \<lparr>Level = 0\<rparr> =
           Some (WriteEntry Builder_Write example_tree [] \<lparr>Level = 0\<rparr>)"
    by blast
  from all example_size have at20:
    "Clone_s 20 example_store (Some 0) = Some (Inr (s', Some c))"
    "WriteEntry_s 20 (Builder_Write :: (string, unit) Writer) s' (Some c) [] \<lparr>Level = 0\<rparr> =
       Some (WriteEntry Builder_Write example_tree [] \<lparr>Level = 0\<rparr>)"
    "WriteEntry_s 20 (Builder_Write :: (string, unit) Writer) s' (Some 0) [] \<lparr>Level = 0\<rparr> =
       Some (WriteEntry Builder_Write example_tree [] \<lparr>Level = 0\<rparr>)"
    by blast+
  from at20(1) example_Clone_s have "s' = example_store @ example_store_clone" "c = 6"
    by simp_all
  with at20 example_tree_at example_Clone_s show ?thesis by simp
qed

text \<open>
  C3. The clone is a structurally identical and independent copy. When a pointer leads
  to a tree in the store, \<^verbatim>\<open>Clone\<close> returns (given fuel above the size of the tree) a
  pointer to the same tree: the same names, the same number of children in the same
  order at every depth. The store it started from is kept as it was, so the original is
  still there. Every node object of the original lies below the old end of the store and
  every node object of the clone at or above it, so no node object belongs to both. And
  after any object is written over a node of one of the two trees, the other pointer
  still leads to the same tree and its render is the same.
\<close>

theorem Clone_s_independent_copy:
  fixes wr :: "('w, 'e) Writer"
  assumes orig: "tree_at s p t"
  shows "\<exists>s' c. (\<forall>n. size t < n \<longrightarrow> Clone_s n s p = Some (Inr (s', Some c))) \<and>
     tree_at s' (Some c) t \<and> tree_at s' (Some c) (Clone t) \<and>
     take (length s) s' = s \<and> tree_at s' p t \<and>
     (\<forall>x\<in>set (nodes_of s' p t). x < length s) \<and>
     (\<forall>x\<in>set (nodes_of s' (Some c) t). length s \<le> x \<and> x < length s') \<and>
     set (nodes_of s' p t) \<inter> set (nodes_of s' (Some c) t) = {} \<and>
     (\<forall>x\<in>set (nodes_of s' p t). \<forall>ob. tree_at (s'[x := ob]) (Some c) t \<and>
        (\<forall>m w opts. size t < m \<longrightarrow>
           WriteEntry_s m wr (s'[x := ob]) (Some c) w opts = Some (WriteEntry wr t w opts))) \<and>
     (\<forall>x\<in>set (nodes_of s' (Some c) t). \<forall>ob. tree_at (s'[x := ob]) p t \<and>
        (\<forall>m w opts. size t < m \<longrightarrow>
           WriteEntry_s m wr (s'[x := ob]) p w opts = Some (WriteEntry wr t w opts)))"
proof -
  let ?k = "length s"
  from orig have "tree_in (\<lambda>a. True) s p t" by (simp add: tree_at_def)
  from Clone_s_ok [OF this lessI] obtain s' where
    run0: "Clone_s (Suc (size t)) s p = Some (Inr (s', Some ?k))" and len: "?k < length s'"
    and keep: "take ?k s' = s" and cl: "tree_in (\<lambda>x. ?k \<le> x) s' (Some ?k) t"
    by blast
  have run: "\<forall>n. size t < n \<longrightarrow> Clone_s n s p = Some (Inr (s', Some ?k))"
  proof (intro allI impI)
    fix n assume "size t < n"
    then show "Clone_s n s p = Some (Inr (s', Some ?k))"
      by (intro Clone_s_fuel_le [OF run0]) simp
  qed
  have nth: "\<And>x. x < ?k \<Longrightarrow> s' ! x = s ! x" using keep by (metis nth_take)
  have og: "tree_in (\<lambda>x. x < ?k) s' p t"
  proof (rule tree_in_frame [OF \<open>tree_in (\<lambda>a. True) s p t\<close>])
    fix x ob assume "deref s x = Some ob"
    then show "x < ?k \<and> deref s' x = Some ob"
      using len nth by (simp add: deref_def split: if_splits)
  qed
  have 1: "tree_at s' (Some ?k) t" using cl by (rule tree_in_any)
  have 2: "tree_at s' (Some ?k) (Clone t)" using 1 by (simp add: Clone_id)
  have 3: "tree_at s' p t" using og by (rule tree_in_any)
  have 4: "\<forall>x\<in>set (nodes_of s' p t). x < ?k" using nodes_of_in [OF og] by blast
  have 5: "\<forall>x\<in>set (nodes_of s' (Some ?k) t). ?k \<le> x \<and> x < length s'"
    using nodes_of_in [OF cl] by blast
  have 6: "set (nodes_of s' p t) \<inter> set (nodes_of s' (Some ?k) t) = {}"
    using 4 5 by fastforce
  have 7: "\<forall>x\<in>set (nodes_of s' p t). \<forall>ob. tree_at (s'[x := ob]) (Some ?k) t \<and>
        (\<forall>m w opts. size t < m \<longrightarrow>
           WriteEntry_s m wr (s'[x := ob]) (Some ?k) w opts = Some (WriteEntry wr t w opts))"
  proof (intro ballI allI)
    fix x ob
    assume "x \<in> set (nodes_of s' p t)"
    with 4 have "\<not> ?k \<le> x" by auto
    with cl have c': "tree_in (\<lambda>x. ?k \<le> x) (s'[x := ob]) (Some ?k) t"
      by (rule tree_in_update_outside)
    show "tree_at (s'[x := ob]) (Some ?k) t \<and>
        (\<forall>m w opts. size t < m \<longrightarrow>
           WriteEntry_s m wr (s'[x := ob]) (Some ?k) w opts = Some (WriteEntry wr t w opts))"
      using tree_in_any [OF c'] WriteEntry_s_tree [OF c', of _ wr] by simp
  qed
  have 8: "\<forall>x\<in>set (nodes_of s' (Some ?k) t). \<forall>ob. tree_at (s'[x := ob]) p t \<and>
        (\<forall>m w opts. size t < m \<longrightarrow>
           WriteEntry_s m wr (s'[x := ob]) p w opts = Some (WriteEntry wr t w opts))"
  proof (intro ballI allI)
    fix x ob
    assume "x \<in> set (nodes_of s' (Some ?k) t)"
    with 5 have "\<not> x < ?k" by auto
    with og have o': "tree_in (\<lambda>x. x < ?k) (s'[x := ob]) p t"
      by (rule tree_in_update_outside)
    show "tree_at (s'[x := ob]) p t \<and>
        (\<forall>m w opts. size t < m \<longrightarrow>
           WriteEntry_s m wr (s'[x := ob]) p w opts = Some (WriteEntry wr t w opts))"
      using tree_in_any [OF o'] WriteEntry_s_tree [OF o', of _ wr] by simp
  qed
  from run 1 2 keep 3 4 5 6 7 8 show ?thesis by blast
qed

theorem Clone_s_independent_copy_witness:
  "tree_at example_store (Some 0) example_tree \<and>
   Clone_s 20 example_store (Some 0) =
     Some (Inr (example_store @ example_store_clone, Some 6)) \<and>
   tree_at (example_store @ example_store_clone) (Some 6) example_tree \<and>
   tree_at (example_store @ example_store_clone) (Some 0) example_tree \<and>
   set (nodes_of (example_store @ example_store_clone) (Some 0) example_tree) \<inter>
     set (nodes_of (example_store @ example_store_clone) (Some 6) example_tree) = {}"
proof -
  from Clone_s_independent_copy
    [where wr = "Builder_Write :: (string, unit) Writer", OF example_tree_at]
  obtain s' c where
    run: "\<forall>n. size example_tree < n \<longrightarrow>
       Clone_s n example_store (Some 0) = Some (Inr (s', Some c))"
    and rest: "tree_at s' (Some c) example_tree" "tree_at s' (Some 0) example_tree"
    "set (nodes_of s' (Some 0) example_tree) \<inter> set (nodes_of s' (Some c) example_tree) = {}"
    by blast
  from run example_size have "Clone_s 20 example_store (Some 0) = Some (Inr (s', Some c))"
    by blast
  with example_Clone_s have "s' = example_store @ example_store_clone" "c = 6"
    by simp_all
  with rest example_tree_at example_Clone_s show ?thesis by simp
qed

text \<open>
  C4. A folder rendered from level 0 writes its own line first and then the render of
  each child, one level deeper, in the order of the children. The same holds at every
  depth \<open>d\<close>, for folders inside folders, as long as the lines of the folder rendered
  from \<open>d\<close> fit. The line of a node at depth \<open>d\<close>, with \<open>4 * d\<close> at most \<open>MaxInt\<close>, is
  \<open>4 * d\<close> spaces, the name and a newline. The text of the folder from level 0 is the
  lines of \<open>entries\<close>, each built by \<open>line\<close>.
\<close>

theorem Folder_render_order_and_indent:
  "Folder_String name children =
     Inr (name @ [CHR 0x0A] @
          concat (map (\<lambda>c. fst (WriteEntry (Builder_Write :: (string, unit) Writer) c []
                                   \<lparr>Level = 1\<rparr>)) children)) \<and>
   (fits (Folder name children) d \<longrightarrow>
      fst (WriteEntry (Builder_Write :: (string, 'e) Writer) (Folder name children) []
             \<lparr>Level = int d\<rparr>) =
        replicate (4 * d) CHR '' '' @ name @ [CHR 0x0A] @
        concat (map (\<lambda>c. fst (WriteEntry (Builder_Write :: (string, 'e) Writer) c []
                                 \<lparr>Level = int d + 1\<rparr>)) children)) \<and>
   (4 * int d \<le> MaxInt \<longrightarrow>
      fst (WriteEntry (Builder_Write :: (string, 'e) Writer) (File name) []
             \<lparr>Level = int d\<rparr>) =
        replicate (4 * d) CHR '' '' @ name @ [CHR 0x0A]) \<and>
   Folder_String name children = Inr (concat (map line (entries (Folder name children) 0)))"
proof -
  have one: "\<lparr>Level = 1\<rparr> = \<lparr>Level = int (Suc 0)\<rparr>" by simp
  have suc: "\<lparr>Level = int d + 1\<rparr> = \<lparr>Level = int (Suc d)\<rparr>" by simp
  have zero: "\<lparr>Level = 0\<rparr> = \<lparr>Level = int 0\<rparr>" by simp
  have full: "Folder_String name children =
      Inr (concat (map line (entries (Folder name children) 0)))"
    unfolding Folder_String_def zero WriteEntry_Builder by simp
  have a: "Folder_String name children =
     Inr (name @ [CHR 0x0A] @
          concat (map (\<lambda>c. fst (WriteEntry (Builder_Write :: (string, unit) Writer) c []
                                   \<lparr>Level = 1\<rparr>)) children))"
    unfolding full one WriteEntry_Builder
    by (simp add: line_def indent_def lines_of_children)
  have b: "fst (WriteEntry (Builder_Write :: (string, 'e) Writer) (Folder name children) []
          \<lparr>Level = int d\<rparr>) =
     replicate (4 * d) CHR '' '' @ name @ [CHR 0x0A] @
     concat (map (\<lambda>c. fst (WriteEntry (Builder_Write :: (string, 'e) Writer) c []
                              \<lparr>Level = int d + 1\<rparr>)) children)"
    unfolding suc WriteEntry_Builder
    by (simp add: line_def indent_def lines_of_children)
  have c: "fst (WriteEntry (Builder_Write :: (string, 'e) Writer) (File name) []
          \<lparr>Level = int d\<rparr>) =
     replicate (4 * d) CHR '' '' @ name @ [CHR 0x0A]"
    unfolding WriteEntry_Builder by (simp add: line_def indent_def)
  from a b c full show ?thesis by blast
qed

theorem Folder_render_order_and_indent_witness:
  "Folder_String ''root''
     [File ''file1'', File ''file2'', Folder ''subfolder'' [File ''file3'', File ''file4'']] =
   Inr (''root'' @ [CHR 0x0A] @
        ''    file1'' @ [CHR 0x0A] @
        ''    file2'' @ [CHR 0x0A] @
        ''    subfolder'' @ [CHR 0x0A] @
        ''        file3'' @ [CHR 0x0A] @
        ''        file4'' @ [CHR 0x0A]) \<and>
   fits (Folder ''subfolder'' [File ''file3'', File ''file4'']) (Suc 0) \<and>
   fst (WriteEntry (Builder_Write :: (string, unit) Writer)
          (Folder ''subfolder'' [File ''file3'', File ''file4'']) [] \<lparr>Level = int (Suc 0)\<rparr>) =
     replicate (4 * Suc 0) CHR '' '' @ ''subfolder'' @ [CHR 0x0A] @
     concat (map (\<lambda>c. fst (WriteEntry (Builder_Write :: (string, unit) Writer) c []
                              \<lparr>Level = int (Suc 0) + 1\<rparr>)) [File ''file3'', File ''file4'']) \<and>
   4 * int (Suc (Suc 0)) \<le> MaxInt \<and>
   fst (WriteEntry (Builder_Write :: (string, unit) Writer) (File ''file3'') []
          \<lparr>Level = int (Suc (Suc 0))\<rparr>) =
     replicate (4 * Suc (Suc 0)) CHR '' '' @ ''file3'' @ [CHR 0x0A]"
proof -
  have top: "Folder_String ''root''
     [File ''file1'', File ''file2'', Folder ''subfolder'' [File ''file3'', File ''file4'']] =
    Inr (concat (map line (entries (Folder ''root''
     [File ''file1'', File ''file2'', Folder ''subfolder'' [File ''file3'', File ''file4'']]) 0)))"
    by (rule Folder_render_order_and_indent [THEN conjunct2, THEN conjunct2, THEN conjunct2])
  have 1: "Folder_String ''root''
     [File ''file1'', File ''file2'', Folder ''subfolder'' [File ''file3'', File ''file4'']] =
   Inr (''root'' @ [CHR 0x0A] @
        ''    file1'' @ [CHR 0x0A] @
        ''    file2'' @ [CHR 0x0A] @
        ''    subfolder'' @ [CHR 0x0A] @
        ''        file3'' @ [CHR 0x0A] @
        ''        file4'' @ [CHR 0x0A])"
    unfolding top
    by (simp add: line_def indent_def replicate_four [of 0, simplified]
        replicate_four [of 4, simplified])
  have f: "fits (Folder ''subfolder'' [File ''file3'', File ''file4'']) (Suc 0)"
    by (simp add: fits_def MaxInt_def)
  have m: "4 * int (Suc (Suc 0)) \<le> MaxInt"
    by (simp add: MaxInt_def)
  note 2 = Folder_render_order_and_indent
    [where 'e = unit, THEN conjunct2, THEN conjunct1, THEN mp, OF f]
  note 3 = Folder_render_order_and_indent
    [where 'e = unit, THEN conjunct2, THEN conjunct2, THEN conjunct1, THEN mp, OF m]
  from 1 f 2 m 3 show ?thesis by (intro conjI)
qed

text \<open>
  C5. A failed write stops the render and its error reaches the caller. Render into any
  sink through a recorder, from an empty log. No call in the log follows a failed one
  (every call before another call returned \<^verbatim>\<open>nil\<close>); an error in the log is the result of
  the render; a \<^verbatim>\<open>nil\<close> result means that no call failed and that the calls are all the
  lines of the tree; an error result is the error of the last call, and the calls are an
  initial part of the lines of the tree. The recorder does not change the outcome.
\<close>

theorem WriteEntry_aborts_on_failed_write:
  assumes run: "WriteEntry (recording wr) t (w, []) opts = ((w', log), r)"
  shows "WriteEntry wr t w opts = (w', r) \<and>
     (\<forall>i j. i < j \<and> j < length log \<longrightarrow> snd (log ! i) = None) \<and>
     (\<forall>p e. (p, Some e) \<in> set log \<longrightarrow> r = Return (Some e)) \<and>
     (r = Return None \<longrightarrow>
        map fst log = map line (entries t (nat (Level opts))) \<and> clean log) \<and>
     (\<forall>e. r = Return (Some e) \<longrightarrow>
        log \<noteq> [] \<and> snd (last log) = Some e \<and>
        map fst log = take (length log) (map line (entries t (nat (Level opts)))))"
proof (cases "0 \<le> Level opts")
  case False
  then have neg: "Level opts < 0" by simp
  from run have "w' = w" "log = []" "r = Panic ''strings: negative Repeat count''"
    by (simp_all add: WriteEntry_negative [OF neg])
  then show ?thesis by (simp add: WriteEntry_negative [OF neg])
next
  case True
  let ?ps = "map line (entries t (nat (Level opts)))"
  from run True have "feed (recording wr) (w, []) ?ps = ((w', log), r)"
    by (simp add: WriteEntry_feed)
  from feed_recording [OF this] have plain: "feed wr w ?ps = (w', r)"
    and shape: "map fst log = take (length log) ?ps"
      "(r = Return None \<and> length log = length ?ps \<and> clean log) \<or>
       (\<exists>e pre p. r = Return (Some e) \<and> log = pre @ [(p, Some e)] \<and> clean pre)"
    by auto
  have 1: "WriteEntry wr t w opts = (w', r)"
    using plain True by (simp add: WriteEntry_feed)
  from shape(2) have rest:
     "(\<forall>i j. i < j \<and> j < length log \<longrightarrow> snd (log ! i) = None) \<and>
      (\<forall>p e. (p, Some e) \<in> set log \<longrightarrow> r = Return (Some e)) \<and>
      (r = Return None \<longrightarrow> length log = length ?ps \<and> clean log) \<and>
      (\<forall>e. r = Return (Some e) \<longrightarrow> log \<noteq> [] \<and> snd (last log) = Some e)"
  proof
    assume ok: "r = Return None \<and> length log = length ?ps \<and> clean log"
    then show ?thesis using clean_nth [of log] clean_mem [of log] by auto
  next
    assume "\<exists>e pre p. r = Return (Some e) \<and> log = pre @ [(p, Some e)] \<and> clean pre"
    then obtain e pre p where r: "r = Return (Some e)" and l: "log = pre @ [(p, Some e)]"
      and c: "clean pre" by blast
    have a: "\<forall>i j. i < j \<and> j < length log \<longrightarrow> snd (log ! i) = None"
      using l c clean_nth [of pre] by (auto simp: nth_append)
    have b: "\<forall>q e'. (q, Some e') \<in> set log \<longrightarrow> r = Return (Some e')"
      using l c r clean_mem [of pre] by auto
    show ?thesis using a b r l by simp
  qed
  from 1 rest shape(1) show ?thesis by simp
qed

theorem WriteEntry_aborts_on_failed_write_witness:
  "WriteEntry (recording full_sink) (Folder ''root'' [File ''file1'', File ''file2'']) ([], [])
      \<lparr>Level = 0\<rparr> =
     ((''root'' @ [CHR 0x0A],
       [(''root'' @ [CHR 0x0A], None), (''    file1'' @ [CHR 0x0A], Some ''full'')]),
      Return (Some ''full'')) \<and>
   WriteEntry full_sink (Folder ''root'' [File ''file1'', File ''file2'']) [] \<lparr>Level = 0\<rparr> =
     (''root'' @ [CHR 0x0A], Return (Some ''full''))"
proof -
  have run: "WriteEntry (recording full_sink) (Folder ''root'' [File ''file1'', File ''file2''])
      ([], []) \<lparr>Level = 0\<rparr> =
     ((''root'' @ [CHR 0x0A],
       [(''root'' @ [CHR 0x0A], None), (''    file1'' @ [CHR 0x0A], Some ''full'')]),
      Return (Some ''full''))"
    by (simp add: File_WriteEntry_def Repeat_def recording_apply full_sink_def)
  from WriteEntry_aborts_on_failed_write [OF run] run show ?thesis by simp
qed

text \<open>
  C6, as the claim words it, fails: the text written for the leaf "file1" at level 0 is
  not "file1", since the line ends with a newline.
\<close>

theorem File_render_file1_counterexample:
  "fst (WriteEntry (Builder_Write :: (string, unit) Writer) (File ''file1'') [] \<lparr>Level = 0\<rparr>)
     \<noteq> ''file1''"
  by (simp add: File_WriteEntry_def Repeat_def Builder_Write_def)

text \<open>
  C6, amended. Rendering the leaf "file1" at level 0 into an empty buffer writes exactly
  "file1" followed by one newline, with no leading indentation, and returns \<^verbatim>\<open>nil\<close>.
\<close>

theorem File_render_file1:
  "WriteEntry Builder_Write (File ''file1'') [] \<lparr>Level = 0\<rparr> =
     (''file1'' @ [CHR 0x0A], Return None)"
  by (simp add: File_WriteEntry_def Repeat_def Builder_Write_def)

text \<open>
  C8. Cloning a folder without children returns: the call (with any fuel to make it) ends
  without a panic, and the pointer it returns leads to a new folder object with the same
  name and no children; the loop and its indexed store never run. On trees, the clone
  of a folder without children is that folder without children.
\<close>

theorem Clone_s_empty_Folder:
  "deref s a = Some (FolderObj name []) \<Longrightarrow>
     Clone_s (Suc n) s (Some a) = Some (Inr (s @ [FolderObj name []], Some (length s))) \<and>
     Clone (Folder name []) = Folder name []"
  by (simp add: alloc_def set_Name_def deref_def)

theorem Clone_s_empty_Folder_witness:
  "deref [FolderObj ''empty'' []] 0 = Some (FolderObj ''empty'' []) \<and>
   Clone_s (Suc 0) [FolderObj ''empty'' []] (Some 0) =
     Some (Inr ([FolderObj ''empty'' [], FolderObj ''empty'' []], Some 1))"
proof -
  have h: "deref [FolderObj ''empty'' []] 0 = Some (FolderObj ''empty'' [])"
    by (simp add: deref_def)
  from Clone_s_empty_Folder [OF h, of 0] h show ?thesis by simp
qed

text \<open>
  C9. The render depends on the tree and the level alone. Into an in-memory buffer
  with any earlier content, \<^verbatim>\<open>WriteEntry\<close> appends the text it writes into an empty
  buffer, with the same outcome; so after a render of any other tree the text appended is
  still the same. For every sink: from a level that is not negative and at which the
  lines of the tree fit, the lines offered are those of the tree at that level; from a
  negative level the call panics before it writes; and from any level, what is offered
  to the sink is an initial part of the lines of the tree at that level, so two renders
  of a tree at a level offer the same bytes as far as both go.
\<close>

theorem WriteEntry_depends_on_tree_and_level:
  fixes sb :: string and wr :: "('w, 'e) Writer"
  shows "WriteEntry (Builder_Write :: (string, 'e) Writer) t sb opts =
     (sb @ fst (WriteEntry (Builder_Write :: (string, 'e) Writer) t [] opts),
      snd (WriteEntry (Builder_Write :: (string, 'e) Writer) t [] opts)) \<and>
   fst (WriteEntry (Builder_Write :: (string, 'e) Writer) t
          (fst (WriteEntry (Builder_Write :: (string, 'e) Writer) t' sb opts')) opts) =
     fst (WriteEntry (Builder_Write :: (string, 'e) Writer) t' sb opts') @
     fst (WriteEntry (Builder_Write :: (string, 'e) Writer) t [] opts) \<and>
   (0 \<le> Level opts \<and> fits t (nat (Level opts)) \<longrightarrow>
      WriteEntry wr t w opts = feed wr w (map line (entries t (nat (Level opts))))) \<and>
   (Level opts < 0 \<longrightarrow>
      WriteEntry wr t w opts = (w, Panic ''strings: negative Repeat count'')) \<and>
   (WriteEntry (recording wr) t (w, []) opts = ((w', log), r) \<longrightarrow>
      map fst log = take (length log) (map line (entries t (nat (Level opts)))))"
proof (intro conjI impI)
  show "WriteEntry (Builder_Write :: (string, 'e) Writer) t sb opts =
     (sb @ fst (WriteEntry (Builder_Write :: (string, 'e) Writer) t [] opts),
      snd (WriteEntry (Builder_Write :: (string, 'e) Writer) t [] opts))"
    by (rule WriteEntry_Builder_any)
  have "WriteEntry (Builder_Write :: (string, 'e) Writer) t
          (fst (WriteEntry (Builder_Write :: (string, 'e) Writer) t' sb opts')) opts =
     (fst (WriteEntry (Builder_Write :: (string, 'e) Writer) t' sb opts') @
      fst (WriteEntry (Builder_Write :: (string, 'e) Writer) t [] opts),
      snd (WriteEntry (Builder_Write :: (string, 'e) Writer) t [] opts))"
    by (rule WriteEntry_Builder_any)
  then show "fst (WriteEntry (Builder_Write :: (string, 'e) Writer) t
          (fst (WriteEntry (Builder_Write :: (string, 'e) Writer) t' sb opts')) opts) =
     fst (WriteEntry (Builder_Write :: (string, 'e) Writer) t' sb opts') @
     fst (WriteEntry (Builder_Write :: (string, 'e) Writer) t [] opts)"
    by (rule arg_cong [where f = fst, THEN trans]) simp
next
  assume "0 \<le> Level opts \<and> fits t (nat (Level opts))"
  then have "0 \<le> Level opts" by simp
  then show "WriteEntry wr t w opts = feed wr w (map line (entries t (nat (Level opts))))"
    by (rule WriteEntry_feed)
next
  assume "Level opts < 0"
  then show "WriteEntry wr t w opts = (w, Panic ''strings: negative Repeat count'')"
    by (rule WriteEntry_negative)
next
  assume run: "WriteEntry (recording wr) t (w, []) opts = ((w', log), r)"
  show "map fst log = take (length log) (map line (entries t (nat (Level opts))))"
  proof (cases "0 \<le> Level opts")
    case False
    then have "Level opts < 0" by simp
    from run WriteEntry_negative [OF this, of "recording wr" t "(w, [])"]
    have "log = []" by simp
    then show ?thesis by simp
  next
    case True
    with run have "feed (recording wr) (w, [])
        (map line (entries t (nat (Level opts)))) = ((w', log), r)"
      by (simp add: WriteEntry_feed)
    from feed_recording [OF this] show ?thesis by auto
  qed
qed

theorem WriteEntry_depends_on_tree_and_level_witness:
  "(0 :: int) \<le> Level \<lparr>Level = 1\<rparr> \<and> fits (File ''a'') (nat (Level \<lparr>Level = 1\<rparr>)) \<and>
   WriteEntry full_sink (File ''a'') [] \<lparr>Level = 1\<rparr> =
     feed full_sink [] (map line (entries (File ''a'') (nat (Level \<lparr>Level = 1\<rparr>)))) \<and>
   Level \<lparr>Level = - 1\<rparr> < 0 \<and>
   WriteEntry full_sink (File ''a'') [] \<lparr>Level = - 1\<rparr> =
     ([], Panic ''strings: negative Repeat count'') \<and>
   WriteEntry (recording full_sink) (Folder ''root'' [File ''file1'', File ''file2'']) ([], [])
      \<lparr>Level = 0\<rparr> =
     ((''root'' @ [CHR 0x0A],
       [(''root'' @ [CHR 0x0A], None), (''    file1'' @ [CHR 0x0A], Some ''full'')]),
      Return (Some ''full'')) \<and>
   map fst [(''root'' @ [CHR 0x0A], None :: string option),
            (''    file1'' @ [CHR 0x0A], Some ''full'')] =
     take 2 (map line (entries (Folder ''root'' [File ''file1'', File ''file2''])
                         (nat (Level \<lparr>Level = 0\<rparr>))))"
proof -
  have f: "(0 :: int) \<le> Level \<lparr>Level = 1\<rparr> \<and> fits (File ''a'') (nat (Level \<lparr>Level = 1\<rparr>))"
    by (simp add: fits_def MaxInt_def)
  have n: "Level \<lparr>Level = - 1\<rparr> < 0" by simp
  have run: "WriteEntry (recording full_sink) (Folder ''root'' [File ''file1'', File ''file2''])
      ([], []) \<lparr>Level = 0\<rparr> =
     ((''root'' @ [CHR 0x0A],
       [(''root'' @ [CHR 0x0A], None), (''    file1'' @ [CHR 0x0A], Some ''full'')]),
      Return (Some ''full''))"
    by (simp add: File_WriteEntry_def Repeat_def recording_apply full_sink_def)
  note T = WriteEntry_depends_on_tree_and_level [where 'e = string and wr = full_sink]
  note a = T [THEN conjunct2, THEN conjunct2, THEN conjunct1, THEN mp, OF f]
  note b = T [THEN conjunct2, THEN conjunct2, THEN conjunct2, THEN conjunct1, THEN mp, OF n]
  note c = T [THEN conjunct2, THEN conjunct2, THEN conjunct2, THEN conjunct2, THEN mp, OF run]
  have c': "map fst [(''root'' @ [CHR 0x0A], None :: string option),
            (''    file1'' @ [CHR 0x0A], Some ''full'')] =
     take 2 (map line (entries (Folder ''root'' [File ''file1'', File ''file2''])
                         (nat (Level \<lparr>Level = 0\<rparr>))))"
    using c by simp
  show ?thesis
    by (intro conjI f [THEN conjunct1] f [THEN conjunct2] a n b run c')
qed

text \<open>
  C10. \<^verbatim>\<open>Folder.String\<close> returns the whole render of the folder at level 0: the text
  that \<^verbatim>\<open>WriteEntry\<close> leaves in the buffer, which is the lines of the tree, each ended by a
  newline, the last one too. The error that \<^verbatim>\<open>String\<close> drops is \<^verbatim>\<open>nil\<close>: a render into the
  in-memory buffer never returns an error, whatever the tree, the buffer and the level.
\<close>

theorem Folder_String_full_render:
  "Folder_String name children =
     Inr (fst (WriteEntry (Builder_Write :: (string, unit) Writer) (Folder name children) []
                 \<lparr>Level = 0\<rparr>)) \<and>
   Folder_String name children = Inr (concat (map line (entries (Folder name children) 0))) \<and>
   (\<exists>body. Folder_String name children = Inr (body @ [CHR 0x0A])) \<and>
   snd (WriteEntry (Builder_Write :: (string, 'e) Writer) (Folder name children) []
          \<lparr>Level = 0\<rparr>) = Return None \<and>
   (\<forall>t sb opts e. snd (WriteEntry (Builder_Write :: (string, 'e) Writer) t sb opts)
       \<noteq> Return (Some e))"
proof -
  have zero: "\<lparr>Level = 0\<rparr> = \<lparr>Level = int 0\<rparr>" by simp
  have full: "Folder_String name children =
      Inr (concat (map line (entries (Folder name children) 0)))"
    unfolding Folder_String_def zero WriteEntry_Builder by simp
  have a: "Folder_String name children =
     Inr (fst (WriteEntry (Builder_Write :: (string, unit) Writer) (Folder name children) []
                 \<lparr>Level = 0\<rparr>))"
    unfolding full zero WriteEntry_Builder by simp
  obtain body where "concat (map line (entries (Folder name children) 0)) = body @ [CHR 0x0A]"
    using concat_lines_end [OF entries_nonempty] by blast
  with full have c: "\<exists>body. Folder_String name children = Inr (body @ [CHR 0x0A])" by simp
  have d: "snd (WriteEntry (Builder_Write :: (string, 'e) Writer) (Folder name children) []
          \<lparr>Level = 0\<rparr>) = Return None"
    unfolding zero WriteEntry_Builder by simp
  from a full c d show ?thesis using WriteEntry_Builder_no_error by blast
qed

subsection \<open>The claim about the factory\<close>

text \<open>
  C7. A provider string other than "google" and "yandex" makes \<^verbatim>\<open>AuthFactory\<close> panic
  with the unknown-provider message and never yields a provider; "google" and "yandex"
  yield the Google and the Yandex provider, whose customers and sellers carry the
  provider's name.
\<close>

theorem AuthFactory_unknown_panics:
  "(provider \<noteq> ''google'' \<and> provider \<noteq> ''yandex'' \<longrightarrow>
      AuthFactory provider = Inl (''unknown provider '' @ provider) \<and>
      (\<forall>p. AuthFactory provider \<noteq> Inr p)) \<and>
   AuthFactory ''google'' = Inr GoogleAuth \<and>
   AuthFactory ''yandex'' = Inr YandexAuth \<and>
   Customer_String (NewCustomer GoogleAuth) = ''Customer: Google Customer'' \<and>
   Seller_String (NewSeller GoogleAuth) = ''Seller: Google Seller'' \<and>
   Customer_String (NewCustomer YandexAuth) = ''Customer: Yandex Customer'' \<and>
   Seller_String (NewSeller YandexAuth) = ''Seller: Yandex Seller''"
  by (simp add: AuthFactory_def)

theorem AuthFactory_unknown_panics_witness:
  "''aws'' \<noteq> ''google'' \<and> ''aws'' \<noteq> ''yandex'' \<and>
   AuthFactory ''aws'' = Inl ''unknown provider aws''"
  using AuthFactory_unknown_panics [of "''aws''"] by simp

end
